theory Spec2Isabelle
  imports Main "HOL-Library.AList"
begin

section \<open>Data model\<close>

text \<open>
  The development embeds the classes \<^verbatim>\<open>Interval\<close> and \<^verbatim>\<open>LimitedInterval\<close> and the
  function \<^verbatim>\<open>sync\<close> of the interval library (the version that has \<^verbatim>\<open>stop()\<close>,
  \<^verbatim>\<open>isStopped\<close>, \<^verbatim>\<open>sync\<close> and \<^verbatim>\<open>LimitedInterval\<close>).

  Objects live in a store indexed by their identity; the host's timers live in a table
  from the handle returned by \<^verbatim>\<open>setInterval\<close> to the callback that was passed to it.
  The callback is the value \<^verbatim>\<open>this.#run_func.bind(this)\<close> had when \<^verbatim>\<open>setInterval\<close> was
  called: replacing \<^verbatim>\<open>#run_func\<close> afterwards does not change what a live handle runs.

  JavaScript numbers are modelled as \<^typ>\<open>int\<close> (durations in milliseconds, tick counts,
  tick limits); fractional values and NaN are outside the model. Notification of
  observers (\<^verbatim>\<open>#update\<close>, \<^verbatim>\<open>#subscribe\<close>) changes no field of the objects and is left out.
\<close>

type_synonym iid = nat
type_synonym handle = nat
type_synonym reactive_env = "nat \<Rightarrow> int"

text \<open>\<^verbatim>\<open>number | (() => number)\<close>: a producer reads the host's reactive state.\<close>

datatype duration_spec = Number int | Producer "reactive_env \<Rightarrow> int"

text \<open>
  The closures that are ever stored in \<^verbatim>\<open>#run_func\<close>, with what they capture:
  the arrow function of the class field (\<open>BaseRun\<close>), the one installed by the
  \<^verbatim>\<open>LimitedInterval\<close> constructor (\<open>LimitedRun\<close>), the leader's and the followers'
  functions installed by \<^verbatim>\<open>enable()\<close> (\<open>LeaderRun\<close> captures \<^verbatim>\<open>leader\<close>, \<^verbatim>\<open>intervals\<close>
  and the map \<^verbatim>\<open>original_run_funcs\<close>; \<open>Noop\<close> is \<^verbatim>\<open>() => {}\<close>). All are arrow
  functions, so \<^verbatim>\<open>bind\<close> and \<^verbatim>\<open>call\<close> do not change the object they act on.
\<close>

datatype handler =
    BaseRun iid
  | LimitedRun iid
  | LeaderRun iid "iid list" "(iid \<times> handler) list"
  | Noop

datatype error = Error string

datatype 'a outcome = Returned 'a | Threw error

record limited =
  max_ticks :: int
  is_completed :: bool
  completion_baseline :: int

text \<open>
  \<open>interval_derived\<close> is the state of the derived value \<^verbatim>\<open>#interval\<close>: the values of its
  dependencies \<^verbatim>\<open>#version\<close> and \<^verbatim>\<open>#duration\<close> at its last evaluation, \<open>None\<close> before
  the first one. \<open>limited_part\<close> holds the private fields of the subclass
  \<^verbatim>\<open>LimitedInterval\<close>, \<open>None\<close> for a plain \<^verbatim>\<open>Interval\<close>.
\<close>

record interval =
  interval_id :: handle
  duration_input :: duration_spec
  is_active :: bool
  tick_count :: int
  version :: nat
  run_func :: handler
  interval_derived :: "(nat \<times> int) option"
  limited_part :: "limited option"

record world =
  objs :: "iid \<Rightarrow> interval"
  next_obj :: iid
  timers :: "handle \<rightharpoonup> handler \<times> int"
  next_handle :: handle
  reactive :: reactive_env

record controller =
  intervals :: "iid list"
  leader :: iid
  original_run_funcs :: "(iid \<times> handler) list"
  sync_active :: bool

section \<open>The host: timers\<close>

definition blank_interval :: interval where
  "blank_interval =
     \<lparr>interval_id = 0, duration_input = Number 0, is_active = True, tick_count = 0,
      version = 0, run_func = Noop, interval_derived = None, limited_part = None\<rparr>"

text \<open>No object, no timer; the host hands out positive handles.\<close>

definition init_world :: world where
  "init_world =
     \<lparr>objs = (\<lambda>_. blank_interval), next_obj = 0, timers = Map.empty, next_handle = 1,
      reactive = (\<lambda>_. 0)\<rparr>"

definition setInterval :: "handler \<Rightarrow> int \<Rightarrow> world \<Rightarrow> handle \<times> world" where
  "setInterval f d w =
     (let h = next_handle w
      in (h, w\<lparr>timers := (timers w)(h \<mapsto> (f, d)), next_handle := Suc h\<rparr>))"

definition clearInterval :: "handle \<Rightarrow> world \<Rightarrow> world" where
  "clearInterval h w = w\<lparr>timers := (timers w)(h := None)\<rparr>"

definition upd_obj :: "iid \<Rightarrow> (interval \<Rightarrow> interval) \<Rightarrow> world \<Rightarrow> world" where
  "upd_obj i f w = w\<lparr>objs := (objs w)(i := f (objs w i))\<rparr>"

section \<open>Interval\<close>

definition resolve :: "reactive_env \<Rightarrow> duration_spec \<Rightarrow> int" where
  "resolve env d = (case d of Number n \<Rightarrow> n | Producer f \<Rightarrow> f env)"

definition get_duration :: "iid \<Rightarrow> world \<Rightarrow> int" where
  "get_duration i w = resolve (reactive w) (duration_input (objs w i))"

definition increment_tick :: "iid \<Rightarrow> world \<Rightarrow> world" where
  "increment_tick i w = upd_obj i (\<lambda>ob. ob\<lparr>tick_count := tick_count ob + 1\<rparr>) w"

definition force_restart :: "iid \<Rightarrow> world \<Rightarrow> world" where
  "force_restart i w = upd_obj i (\<lambda>ob. ob\<lparr>version := version ob + 1\<rparr>) w"

definition pause :: "iid \<Rightarrow> world \<Rightarrow> world" where
  "pause i w = upd_obj i (\<lambda>ob. ob\<lparr>is_active := False\<rparr>) w"

definition isActive :: "iid \<Rightarrow> world \<Rightarrow> bool" where
  "isActive i w = is_active (objs w i)"

text \<open>
  Calling a stored tick-handling function. \<open>BaseRun\<close> is the class field \<^verbatim>\<open>#run_func\<close>,
  \<open>LimitedRun\<close> the closure of the \<^verbatim>\<open>LimitedInterval\<close> constructor, \<open>LeaderRun\<close> the
  leader's closure of \<^verbatim>\<open>enable()\<close>, which looks every member up in the map and calls
  what it finds. In \<open>LimitedRun\<close> the branch \<open>None\<close> stands for an object without the
  subclass fields, and in \<open>LeaderRun\<close> for a member without an entry in the map; neither
  arises for closures built by the constructors and by \<^verbatim>\<open>sync\<close>.
\<close>

function run_handler :: "handler \<Rightarrow> world \<Rightarrow> world" where
  "run_handler (BaseRun i) w =
     (if \<not> is_active (objs w i) then w else increment_tick i w)"
| "run_handler (LimitedRun i) w =
     (case limited_part (objs w i) of
        None \<Rightarrow> w
      | Some l \<Rightarrow>
          if is_completed l then w
          else if \<not> is_active (objs w i) then w
          else
            let w1 = increment_tick i w;
                ticksSinceBaseline = tick_count (objs w1 i) - completion_baseline l
            in if ticksSinceBaseline \<ge> max_ticks l
               then pause i
                      (upd_obj i (\<lambda>ob. ob\<lparr>limited_part := Some (l\<lparr>is_completed := True\<rparr>)\<rparr>) w1)
               else w1)"
| "run_handler (LeaderRun ldr members origs) w =
     (if \<not> is_active (objs w ldr) then w
      else fold (\<lambda>synced_interval w'.
                   case map_of origs synced_interval of
                     None \<Rightarrow> w'
                   | Some original_func \<Rightarrow> run_handler original_func w')
                members w)"
| "run_handler Noop w = w"
  by pat_completeness auto
termination
proof (relation "measure (\<lambda>(f, w). size f)")
  show "wf (measure (\<lambda>(f, w). size f))"
    by simp
next
  fix ldr :: iid and members :: "iid list" and origs :: "(iid \<times> handler) list"
    and w xa :: world and x :: iid and x2 :: handler
  assume "map_of origs x = Some x2"
  then have "size x2 < Suc (size_list (size_prod (\<lambda>_. 0) size) origs)"
    by (induction origs) (auto split: if_splits)
  then show "((x2, xa), LeaderRun ldr members origs, w) \<in> measure (\<lambda>(f, w). size f)"
    by simp
qed

text \<open>
  Modelled from the spec: the derived value \<^verbatim>\<open>#interval\<close> belongs to the host's reactive
  library. It is evaluated at its first read and again at a read after \<^verbatim>\<open>#version\<close> or
  the resolved duration changed since its last evaluation; otherwise the read returns
  the cached handle and runs nothing. The body evaluated is the source's: clear the
  handle in \<^verbatim>\<open>#interval_id\<close>, create one that runs the current \<^verbatim>\<open>#run_func\<close>, store it.
\<close>

definition kickoff_subscriptions :: "iid \<Rightarrow> world \<Rightarrow> world" where
  "kickoff_subscriptions i w =
     (let ob = objs w i;
          deps = (version ob, resolve (reactive w) (duration_input ob))
      in if interval_derived ob = Some deps then w
         else
           let w1 = clearInterval (interval_id ob) w;
               (h, w2) = setInterval (run_func ob) (snd deps) w1
           in upd_obj i (\<lambda>ob. ob\<lparr>interval_id := h, interval_derived := Some deps\<rparr>) w2)"

definition new_Interval :: "duration_spec \<Rightarrow> bool \<Rightarrow> world \<Rightarrow> iid \<times> world" where
  "new_Interval duration immediate w =
     (let i = next_obj w;
          ob = \<lparr>interval_id = 0, duration_input = duration, is_active = True,
                tick_count = 0, version = 0, run_func = BaseRun i,
                interval_derived = None, limited_part = None\<rparr>;
          w1 = w\<lparr>objs := (objs w)(i := ob), next_obj := Suc i\<rparr>
      in (i, if immediate then kickoff_subscriptions i w1 else w1))"

definition resume :: "iid \<Rightarrow> bool \<Rightarrow> world \<Rightarrow> world" where
  "resume i immediate w =
     (let w1 = upd_obj i (\<lambda>ob. ob\<lparr>is_active := True\<rparr>) w
      in if immediate
         then let w2 = upd_obj i (\<lambda>ob. ob\<lparr>version := version ob + 1\<rparr>) w1
              in run_handler (run_func (objs w2 i)) w2
         else w1)"

definition get_tickCount :: "iid \<Rightarrow> world \<Rightarrow> int \<times> world" where
  "get_tickCount i w =
     (let w1 = kickoff_subscriptions i w in (tick_count (objs w1 i), w1))"

text \<open>The date returned by \<^verbatim>\<open>current\<close> is not modelled, only the effect of the read.\<close>

definition get_current :: "iid \<Rightarrow> world \<Rightarrow> world" where
  "get_current i w = kickoff_subscriptions i w"

definition set_duration :: "iid \<Rightarrow> duration_spec \<Rightarrow> world \<Rightarrow> world" where
  "set_duration i v w =
     upd_obj i (\<lambda>ob. ob\<lparr>version := version ob + 1\<rparr>)
       (upd_obj i (\<lambda>ob. ob\<lparr>duration_input := v\<rparr>) w)"

definition stop :: "iid \<Rightarrow> world \<Rightarrow> world" where
  "stop i w =
     upd_obj i (\<lambda>ob. ob\<lparr>interval_id := 0\<rparr>)
       (upd_obj i (\<lambda>ob. ob\<lparr>is_active := False\<rparr>)
          (clearInterval (interval_id (objs w i)) w))"

definition isStopped :: "iid \<Rightarrow> world \<Rightarrow> bool" where
  "isStopped i w = (interval_id (objs w i) = 0)"

definition dispose :: "iid \<Rightarrow> world \<Rightarrow> world" where
  "dispose i w = clearInterval (interval_id (objs w i)) w"

text \<open>The host fires the timer with handle \<open>h\<close>: it calls the callback given to \<^verbatim>\<open>setInterval\<close>.\<close>

definition fire :: "handle \<Rightarrow> world \<Rightarrow> world" where
  "fire h w = (case timers w h of None \<Rightarrow> w | Some (f, d) \<Rightarrow> run_handler f w)"

text \<open>Whether the object's own handle is live in the host.\<close>

definition live :: "iid \<Rightarrow> world \<Rightarrow> bool" where
  "live i w = (timers w (interval_id (objs w i)) \<noteq> None)"

section \<open>LimitedInterval\<close>

text \<open>
  The base constructor runs first (and with \<^verbatim>\<open>immediate\<close> creates the handle), then the
  limit is validated, then \<^verbatim>\<open>#max_ticks\<close> and the tick-handling function are set.
\<close>

definition new_LimitedInterval ::
  "duration_spec \<Rightarrow> int \<Rightarrow> bool \<Rightarrow> world \<Rightarrow> iid outcome \<times> world" where
  "new_LimitedInterval duration maxTicks immediate w =
     (let (i, w1) = new_Interval duration immediate w
      in if maxTicks \<le> 0 then (Threw (Error ''max_ticks must be greater than 0''), w1)
         else (Returned i,
               upd_obj i (\<lambda>ob. ob\<lparr>run_func := LimitedRun i\<rparr>)
                 (upd_obj i
                    (\<lambda>ob. ob\<lparr>limited_part :=
                       Some \<lparr>max_ticks = maxTicks, is_completed = False,
                             completion_baseline = 0\<rparr>\<rparr>) w1)))"

text \<open>
  The members of the subclass are called on objects that have its fields; on any other
  object the model leaves the state as it is.
\<close>

definition upd_limited :: "iid \<Rightarrow> (limited \<Rightarrow> limited) \<Rightarrow> world \<Rightarrow> world" where
  "upd_limited i g w = upd_obj i (\<lambda>ob. ob\<lparr>limited_part := map_option g (limited_part ob)\<rparr>) w"

definition isCompleted :: "iid \<Rightarrow> world \<Rightarrow> bool" where
  "isCompleted i w = (case limited_part (objs w i) of None \<Rightarrow> False | Some l \<Rightarrow> is_completed l)"

definition get_maxTicks :: "iid \<Rightarrow> world \<Rightarrow> int" where
  "get_maxTicks i w = (case limited_part (objs w i) of None \<Rightarrow> 0 | Some l \<Rightarrow> max_ticks l)"

definition get_completion_baseline :: "iid \<Rightarrow> world \<Rightarrow> int" where
  "get_completion_baseline i w =
     (case limited_part (objs w i) of None \<Rightarrow> 0 | Some l \<Rightarrow> completion_baseline l)"

definition get_remainingTicks :: "iid \<Rightarrow> world \<Rightarrow> int \<times> world" where
  "get_remainingTicks i w =
     (let (tickCount, w1) = get_tickCount i w;
          ticksSinceBaseline = tickCount - get_completion_baseline i w1
      in (max 0 (get_maxTicks i w1 - ticksSinceBaseline), w1))"

definition reset :: "iid \<Rightarrow> world \<Rightarrow> world" where
  "reset i w =
     (let w1 = upd_limited i (\<lambda>l. l\<lparr>is_completed := False\<rparr>) w;
          (tickCount, w2) = get_tickCount i w1;
          w3 = upd_limited i (\<lambda>l. l\<lparr>completion_baseline := tickCount\<rparr>) w2
      in if \<not> isActive i w3 then resume i False w3 else w3)"

definition set_maxTicks :: "iid \<Rightarrow> int \<Rightarrow> world \<Rightarrow> unit outcome \<times> world" where
  "set_maxTicks i new_max w =
     (if new_max \<le> 0 then (Threw (Error ''max_ticks must be greater than 0''), w)
      else (Returned (),
            upd_limited i (\<lambda>l. l\<lparr>is_completed := False\<rparr>)
              (upd_limited i (\<lambda>l. l\<lparr>max_ticks := new_max\<rparr>) w)))"

section \<open>sync\<close>

text \<open>
  \<^verbatim>\<open>sync\<close> reads the members' durations and tick-handling functions and changes no
  object. The map \<^verbatim>\<open>original_run_funcs\<close> is an association list filled with
  \<^const>\<open>AList.update\<close> (a later \<^verbatim>\<open>set\<close> of the same key replaces the value).
\<close>

definition find_leader :: "iid list \<Rightarrow> iid \<Rightarrow> world \<Rightarrow> iid" where
  "find_leader members first w =
     fold (\<lambda>interval ldr. if get_duration interval w < get_duration ldr w then interval else ldr)
       members first"

definition capture_run_funcs :: "iid list \<Rightarrow> world \<Rightarrow> (iid \<times> handler) list" where
  "capture_run_funcs members w =
     fold (\<lambda>interval m. AList.update interval (run_func (objs w interval)) m) members []"

definition sync :: "iid list \<Rightarrow> world \<Rightarrow> controller outcome" where
  "sync members w =
     (case members of
        [] \<Rightarrow> Threw (Error ''At least one interval is required for sync'')
      | first # _ \<Rightarrow>
          Returned \<lparr>intervals = members, leader = find_leader members first w,
                    original_run_funcs = capture_run_funcs members w, sync_active = False\<rparr>)"

definition enable :: "controller \<Rightarrow> world \<Rightarrow> controller \<times> world" where
  "enable c w =
     (if sync_active c then (c, w)
      else
        let w1 = fold (\<lambda>interval w'.
                   if interval = leader c
                   then upd_obj interval
                          (\<lambda>ob. ob\<lparr>run_func :=
                             LeaderRun (leader c) (intervals c) (original_run_funcs c)\<rparr>) w'
                   else upd_obj interval (\<lambda>ob. ob\<lparr>run_func := Noop\<rparr>) w')
                 (intervals c) w;
            w2 = get_current (leader c) w1;
            w3 = force_restart (leader c) w2
        in (c\<lparr>sync_active := True\<rparr>, w3))"

text \<open>
  In \<open>disable\<close> the branch \<open>None\<close> stands for a member without an entry in the map, which
  does not arise for a controller built by \<open>sync\<close>.
\<close>

definition disable :: "controller \<Rightarrow> world \<Rightarrow> controller \<times> world" where
  "disable c w =
     (if \<not> sync_active c then (c, w)
      else
        (c\<lparr>sync_active := False\<rparr>,
         fold (\<lambda>interval w'.
                 force_restart interval
                   (case map_of (original_run_funcs c) interval of
                      None \<Rightarrow> w'
                    | Some original_func \<Rightarrow>
                        upd_obj interval (\<lambda>ob. ob\<lparr>run_func := original_func\<rparr>) w'))
           (intervals c) w))"

definition get_leader :: "controller \<Rightarrow> iid" where
  "get_leader c = leader c"

section \<open>Sequences of operations\<close>

text \<open>
  What a program and the host can do to a world: construct objects, call their public
  members, fire a timer, change the reactive state a duration producer reads, and call
  \<^verbatim>\<open>enable()\<close> or \<^verbatim>\<open>disable()\<close> of a controller (given in its current state).
\<close>

datatype op =
    NewInterval duration_spec bool
  | NewLimitedInterval duration_spec int bool
  | ReadCurrent iid
  | ReadTickCount iid
  | ReadRemainingTicks iid
  | SetDuration iid duration_spec
  | Pause iid
  | Resume iid bool
  | Stop iid
  | Dispose iid
  | Reset iid
  | SetMaxTicks iid int
  | Fire handle
  | SetReactive nat int
  | SyncEnable controller
  | SyncDisable controller

fun step :: "op \<Rightarrow> world \<Rightarrow> world" where
  "step (NewInterval d immediate) w = snd (new_Interval d immediate w)"
| "step (NewLimitedInterval d maxTicks immediate) w =
     snd (new_LimitedInterval d maxTicks immediate w)"
| "step (ReadCurrent i) w = get_current i w"
| "step (ReadTickCount i) w = snd (get_tickCount i w)"
| "step (ReadRemainingTicks i) w = snd (get_remainingTicks i w)"
| "step (SetDuration i d) w = set_duration i d w"
| "step (Pause i) w = pause i w"
| "step (Resume i immediate) w = resume i immediate w"
| "step (Stop i) w = stop i w"
| "step (Dispose i) w = dispose i w"
| "step (Reset i) w = reset i w"
| "step (SetMaxTicks i v) w = snd (set_maxTicks i v w)"
| "step (Fire h) w = fire h w"
| "step (SetReactive k v) w = w\<lparr>reactive := (reactive w)(k := v)\<rparr>"
| "step (SyncEnable c) w = snd (enable c w)"
| "step (SyncDisable c) w = snd (disable c w)"

definition run_ops :: "op list \<Rightarrow> world \<Rightarrow> world" where
  "run_ops ops w = fold step ops w"

text \<open>
  Every \<^verbatim>\<open>resume\<close> that the sequence calls on timer \<open>i\<close> finds \<open>i\<close> not completed; calls
  of \<^verbatim>\<open>resume\<close> on other timers are not restricted.
\<close>

fun resume_guarded :: "iid \<Rightarrow> op list \<Rightarrow> world \<Rightarrow> bool" where
  "resume_guarded i [] w = True"
| "resume_guarded i (Resume j immediate # ops) w =
     ((if j = i then \<not> isCompleted i w else True)
      \<and> resume_guarded i ops (step (Resume j immediate) w))"
| "resume_guarded i (x # ops) w = resume_guarded i ops (step x w)"

definition completed_implies_inactive :: "iid \<Rightarrow> world \<Rightarrow> bool" where
  "completed_implies_inactive i w = (isCompleted i w \<longrightarrow> \<not> isActive i w)"

text \<open>
  Calls of \<^verbatim>\<open>enable()\<close> and \<^verbatim>\<open>disable()\<close> on one controller, each in the world of its
  moment (anything may have happened to the world in between).
\<close>

datatype sync_call = CallEnable | CallDisable

fun run_sync_calls :: "(sync_call \<times> world) list \<Rightarrow> controller \<Rightarrow> controller" where
  "run_sync_calls [] c = c"
| "run_sync_calls ((CallEnable, w) # calls) c = run_sync_calls calls (fst (enable c w))"
| "run_sync_calls ((CallDisable, w) # calls) c = run_sync_calls calls (fst (disable c w))"

section \<open>Basic facts\<close>

text \<open>The equations that evaluate a run of operations on a concrete world.\<close>

lemmas scenario_defs =
  run_ops_def new_Interval_def new_LimitedInterval_def init_world_def upd_obj_def Let_def
  get_current_def get_tickCount_def kickoff_subscriptions_def setInterval_def
  clearInterval_def resolve_def fire_def increment_tick_def pause_def resume_def stop_def
  isCompleted_def isActive_def isStopped_def live_def

lemmas sync_scenario_defs =
  sync_def find_leader_def capture_run_funcs_def get_duration_def get_leader_def
  enable_def disable_def force_restart_def

lemma kickoff_fields:
  "is_active (objs (kickoff_subscriptions i w) j) = is_active (objs w j)"
  "tick_count (objs (kickoff_subscriptions i w) j) = tick_count (objs w j)"
  "version (objs (kickoff_subscriptions i w) j) = version (objs w j)"
  "run_func (objs (kickoff_subscriptions i w) j) = run_func (objs w j)"
  "limited_part (objs (kickoff_subscriptions i w) j) = limited_part (objs w j)"
  "duration_input (objs (kickoff_subscriptions i w) j) = duration_input (objs w j)"
  "reactive (kickoff_subscriptions i w) = reactive w"
  "next_obj (kickoff_subscriptions i w) = next_obj w"
  by (simp_all add: kickoff_subscriptions_def Let_def setInterval_def clearInterval_def
      upd_obj_def)

lemma fold_preserves:
  assumes "\<And>x w. x \<in> set xs \<Longrightarrow> P w \<Longrightarrow> P (g x w)"
  shows "P w \<Longrightarrow> P (fold g xs w)"
  using assms by (induction xs arbitrary: w) auto

text \<open>
  A property of the world that the two tick-counting closures preserve is preserved by
  every tick-handling function, also by a leader's broadcast.
\<close>

lemma run_handler_preserves:
  assumes base: "\<And>i w. P w \<Longrightarrow> P (run_handler (BaseRun i) w)"
    and lim: "\<And>i w. P w \<Longrightarrow> P (run_handler (LimitedRun i) w)"
  shows "P w \<Longrightarrow> P (run_handler f w)"
proof (induction f w rule: run_handler.induct)
  case (1 i w)
  then show ?case using base by blast
next
  case (2 i w)
  then show ?case using lim by blast
next
  case (3 ldr members origs w)
  show ?case
  proof (cases "is_active (objs w ldr)")
    case False
    then show ?thesis using "3.prems" by simp
  next
    case True
    have "P (fold (\<lambda>synced_interval w'.
                     case map_of origs synced_interval of
                       None \<Rightarrow> w'
                     | Some original_func \<Rightarrow> run_handler original_func w') members w)"
    proof (rule fold_preserves)
      show "P w" by (rule "3.prems")
    next
      fix x w'
      assume "x \<in> set members" "P w'"
      then show "P (case map_of origs x of None \<Rightarrow> w'
                    | Some original_func \<Rightarrow> run_handler original_func w')"
        using "3.IH" True by (cases "map_of origs x") auto
    qed
    then show ?thesis using True by simp
  qed
next
  case (4 w)
  then show ?case by simp
qed

section \<open>isStopped\<close>

text \<open>
  C1. The claim: \<^verbatim>\<open>isStopped\<close> is true exactly when \<^verbatim>\<open>stop()\<close> has been called and the
  handle is cleared, so a freshly constructed interval on which \<^verbatim>\<open>stop()\<close> was never
  called reports false. The code compares \<^verbatim>\<open>#interval_id\<close> with its initial value 0:
  the interval \<^verbatim>\<open>new Interval(1000)\<close>, never started and never stopped, reports true.
\<close>

theorem isStopped_of_fresh_interval:
  "isStopped (fst (new_Interval (Number 1000) False init_world))
     (snd (new_Interval (Number 1000) False init_world)) = True"
  by (simp add: new_Interval_def isStopped_def Let_def)

section \<open>LimitedInterval: limit, reset, remaining ticks\<close>

lemma limited_ticks_below_limit:
  assumes "limited_part (objs w i) = Some l" "\<not> is_completed l" "is_active (objs w i)"
    "tick_count (objs w i) - completion_baseline l + int n < max_ticks l"
  shows "limited_part (objs ((run_handler (LimitedRun i) ^^ n) w) i) = Some l
       \<and> is_active (objs ((run_handler (LimitedRun i) ^^ n) w) i)
       \<and> tick_count (objs ((run_handler (LimitedRun i) ^^ n) w) i) = tick_count (objs w i) + int n"
  using assms
proof (induction n)
  case 0
  then show ?case by simp
next
  case (Suc n)
  then show ?case
    by (simp add: Let_def increment_tick_def upd_obj_def)
qed

lemma limited_tick_at_limit:
  assumes "limited_part (objs w i) = Some l" "\<not> is_completed l" "is_active (objs w i)"
    "tick_count (objs w i) - completion_baseline l + 1 = max_ticks l"
  shows "limited_part (objs (run_handler (LimitedRun i) w) i) = Some (l\<lparr>is_completed := True\<rparr>)
       \<and> \<not> is_active (objs (run_handler (LimitedRun i) w) i)
       \<and> tick_count (objs (run_handler (LimitedRun i) w) i) = tick_count (objs w i) + 1"
  using assms by (simp add: Let_def increment_tick_def upd_obj_def pause_def)

lemma reset_fields:
  assumes "limited_part (objs w i) = Some l"
  shows "limited_part (objs (reset i w) i) =
           Some (l\<lparr>is_completed := False, completion_baseline := tick_count (objs w i)\<rparr>)"
    and "tick_count (objs (reset i w) i) = tick_count (objs w i)"
    and "is_active (objs (reset i w) i)"
    and "version (objs (reset i w) i) = version (objs w i)"
  using assms
  by (simp_all add: reset_def get_tickCount_def Let_def upd_limited_def upd_obj_def resume_def
      isActive_def kickoff_fields)

lemma run_handler_limit_reached:
  assumes "\<forall>l. limited_part (objs (w::world) i) = Some l \<longrightarrow> is_completed l \<longrightarrow>
             max_ticks l \<le> tick_count (objs w i) - completion_baseline l"
  shows "\<forall>l. limited_part (objs (run_handler f w) i) = Some l \<longrightarrow> is_completed l \<longrightarrow>
             max_ticks l \<le> tick_count (objs (run_handler f w) i) - completion_baseline l"
  using assms
proof (rule run_handler_preserves
    [where P = "\<lambda>w. \<forall>l. limited_part (objs w i) = Some l \<longrightarrow> is_completed l \<longrightarrow>
                  max_ticks l \<le> tick_count (objs w i) - completion_baseline l", rotated 2])
  fix j :: iid and w :: world
  assume "\<forall>l. limited_part (objs w i) = Some l \<longrightarrow> is_completed l \<longrightarrow>
             max_ticks l \<le> tick_count (objs w i) - completion_baseline l"
  then show "\<forall>l. limited_part (objs (run_handler (BaseRun j) w) i) = Some l \<longrightarrow>
               is_completed l \<longrightarrow>
               max_ticks l \<le> tick_count (objs (run_handler (BaseRun j) w) i) - completion_baseline l"
    by (auto simp: increment_tick_def upd_obj_def)
next
  fix j :: iid and w :: world
  assume "\<forall>l. limited_part (objs w i) = Some l \<longrightarrow> is_completed l \<longrightarrow>
             max_ticks l \<le> tick_count (objs w i) - completion_baseline l"
  then show "\<forall>l. limited_part (objs (run_handler (LimitedRun j) w) i) = Some l \<longrightarrow>
               is_completed l \<longrightarrow>
               max_ticks l \<le> tick_count (objs (run_handler (LimitedRun j) w) i) - completion_baseline l"
    by (auto simp: increment_tick_def upd_obj_def pause_def Let_def split: option.splits)
qed

lemma remainingTicks_eq:
  assumes "limited_part (objs w i) = Some l"
  shows "fst (get_remainingTicks i w) =
           max 0 (max_ticks l - (tick_count (objs w i) - completion_baseline l))"
  using assms
  by (simp add: get_remainingTicks_def get_tickCount_def Let_def get_completion_baseline_def
      get_maxTicks_def kickoff_fields)

text \<open>
  What \<^verbatim>\<open>reset()\<close> does to the object, for a limit that is positive (as the constructor
  and the setter require): it sets \<^verbatim>\<open>isCompleted\<close> to false and the completion baseline
  to the current tick count, leaves the timer active without bumping the version or
  counting a tick, and leaves the tick count and the limit as they were. From there,
  fewer than \<^verbatim>\<open>maxTicks\<close> calls of the limit-checking function do not complete the timer
  and exactly \<^verbatim>\<open>maxTicks\<close> calls do. A handle bound to that function makes one such call
  at each firing.
\<close>

lemma reset_then_limited_ticks:
  assumes "limited_part (objs w i) = Some l" and "0 < max_ticks l"
  shows "isCompleted i (reset i w) = False
       \<and> get_completion_baseline i (reset i w) = tick_count (objs w i)
       \<and> tick_count (objs (reset i w) i) = tick_count (objs w i)
       \<and> isActive i (reset i w)
       \<and> version (objs (reset i w) i) = version (objs w i)
       \<and> get_maxTicks i (reset i w) = max_ticks l
       \<and> (\<forall>n. int n < max_ticks l \<longrightarrow>
            \<not> isCompleted i ((run_handler (LimitedRun i) ^^ n) (reset i w)))
       \<and> isCompleted i ((run_handler (LimitedRun i) ^^ nat (max_ticks l)) (reset i w))
       \<and> tick_count (objs ((run_handler (LimitedRun i) ^^ nat (max_ticks l)) (reset i w)) i)
           = tick_count (objs w i) + max_ticks l"
proof -
  let ?l = "l\<lparr>is_completed := False, completion_baseline := tick_count (objs w i)\<rparr>"
  let ?w = "reset i w"
  let ?tick = "run_handler (LimitedRun i)"
  have lp: "limited_part (objs ?w i) = Some ?l"
    and tc: "tick_count (objs ?w i) = tick_count (objs w i)"
    and act: "is_active (objs ?w i)"
    and ver: "version (objs ?w i) = version (objs w i)"
    using reset_fields [OF assms(1)] by simp_all
  have below: "limited_part (objs ((?tick ^^ n) ?w) i) = Some ?l
       \<and> is_active (objs ((?tick ^^ n) ?w) i)
       \<and> tick_count (objs ((?tick ^^ n) ?w) i) = tick_count (objs ?w i) + int n"
    if "int n < max_ticks l" for n
    using that by (intro limited_ticks_below_limit [OF lp _ act]) (simp_all add: tc)
  obtain m where m: "nat (max_ticks l) = Suc m"
    using assms(2) by (cases "nat (max_ticks l)") auto
  then have m_lt: "int m < max_ticks l" and m_eq: "int m + 1 = max_ticks l"
    by linarith+
  have last: "limited_part (objs (?tick ((?tick ^^ m) ?w)) i) = Some (?l\<lparr>is_completed := True\<rparr>)
       \<and> \<not> is_active (objs (?tick ((?tick ^^ m) ?w)) i)
       \<and> tick_count (objs (?tick ((?tick ^^ m) ?w)) i) = tick_count (objs ((?tick ^^ m) ?w) i) + 1"
    using below [OF m_lt] m_eq
    by (intro limited_tick_at_limit) (simp_all add: tc)
  have "isCompleted i ?w = False"
    using lp by (simp add: isCompleted_def)
  moreover have "get_completion_baseline i ?w = tick_count (objs w i)"
    using lp by (simp add: get_completion_baseline_def)
  moreover have "isActive i ?w"
    using act by (simp add: isActive_def)
  moreover have "get_maxTicks i ?w = max_ticks l"
    using lp by (simp add: get_maxTicks_def)
  moreover have "\<forall>n. int n < max_ticks l \<longrightarrow> \<not> isCompleted i ((?tick ^^ n) ?w)"
    using below by (simp add: isCompleted_def)
  moreover have "isCompleted i ((?tick ^^ nat (max_ticks l)) ?w)"
    using last by (simp add: m isCompleted_def)
  moreover have "tick_count (objs ((?tick ^^ nat (max_ticks l)) ?w) i)
           = tick_count (objs w i) + max_ticks l"
    using last below [OF m_lt] m_eq by (simp add: m tc)
  ultimately show ?thesis
    using tc ver by simp
qed

lemma fire_limited_handle:
  "timers w h = Some (LimitedRun i, d) \<Longrightarrow> fire h w = run_handler (LimitedRun i) w"
  by (simp add: fire_def)

text \<open>
  C6. The claim: \<^verbatim>\<open>reset()\<close> sets \<^verbatim>\<open>isCompleted\<close> to false and the completion baseline to
  the current tick count, so that exactly \<^verbatim>\<open>maxTicks\<close> further counted ticks trigger the
  next completion; it resumes the timer if it is not active and leaves the tick count
  unchanged. In the code the ticks the object's timer counts need not pass the limit
  check: for \<^verbatim>\<open>t = new LimitedInterval(100, 2, {immediate: true})\<close> the base constructor
  creates the handle before the constructor of the subclass installs the limit-checking
  function, so the handle runs the base function. After one firing and \<^verbatim>\<open>t.reset()\<close> the
  baseline is 1 and the tick count still 1; three further firings count ticks 2, 3 and 4
  and the timer is neither completed nor paused. Constructed without \<^verbatim>\<open>immediate\<close> and
  started by \<^verbatim>\<open>t.current\<close>, the same timer is not completed after one further firing and
  completed after two.
\<close>

theorem reset_on_immediate_timer_never_completes:
  "isCompleted 0 (run_ops [NewLimitedInterval (Number 100) 2 True, Fire 1, Reset 0]
        init_world) = False
   \<and> get_completion_baseline 0 (run_ops [NewLimitedInterval (Number 100) 2 True, Fire 1,
        Reset 0] init_world) = 1
   \<and> get_maxTicks 0 (run_ops [NewLimitedInterval (Number 100) 2 True, Fire 1, Reset 0]
        init_world) = 2
   \<and> tick_count (objs (run_ops [NewLimitedInterval (Number 100) 2 True, Fire 1, Reset 0]
        init_world) 0) = 1
   \<and> live 0 (run_ops [NewLimitedInterval (Number 100) 2 True, Fire 1, Reset 0] init_world)
   \<and> interval_id (objs (run_ops [NewLimitedInterval (Number 100) 2 True, Fire 1, Reset 0]
        init_world) 0) = 1
   \<and> tick_count (objs (run_ops [NewLimitedInterval (Number 100) 2 True, Fire 1, Reset 0,
        Fire 1, Fire 1] init_world) 0) = 3
   \<and> isCompleted 0 (run_ops [NewLimitedInterval (Number 100) 2 True, Fire 1, Reset 0,
        Fire 1, Fire 1] init_world) = False
   \<and> tick_count (objs (run_ops [NewLimitedInterval (Number 100) 2 True, Fire 1, Reset 0,
        Fire 1, Fire 1, Fire 1] init_world) 0) = 4
   \<and> isCompleted 0 (run_ops [NewLimitedInterval (Number 100) 2 True, Fire 1, Reset 0,
        Fire 1, Fire 1, Fire 1] init_world) = False
   \<and> isActive 0 (run_ops [NewLimitedInterval (Number 100) 2 True, Fire 1, Reset 0,
        Fire 1, Fire 1, Fire 1] init_world)
   \<and> isCompleted 0 (run_ops [NewLimitedInterval (Number 100) 2 False, ReadCurrent 0, Fire 1,
        Reset 0, Fire 1] init_world) = False
   \<and> isCompleted 0 (run_ops [NewLimitedInterval (Number 100) 2 False, ReadCurrent 0, Fire 1,
        Reset 0, Fire 1, Fire 1] init_world)
   \<and> tick_count (objs (run_ops [NewLimitedInterval (Number 100) 2 False, ReadCurrent 0,
        Fire 1, Reset 0, Fire 1, Fire 1] init_world) 0) = 3"
  by (simp add: scenario_defs reset_def upd_limited_def get_completion_baseline_def
      get_maxTicks_def)

text \<open>
  C7. For every \<^verbatim>\<open>LimitedInterval\<close>, in every state, the \<^verbatim>\<open>remainingTicks\<close> read equals
  \<open>max 0 (maxTicks - (tickCount - completionBaseline))\<close>; it is never negative; and when a
  call of a tick-handling function (the timer's own or a leader's broadcast) completes a
  timer that was not completed, the read gives exactly 0.
\<close>

theorem remainingTicks_value:
  assumes "limited_part (objs w i) = Some l"
  shows "fst (get_remainingTicks i w) =
           max 0 (max_ticks l - (tick_count (objs w i) - completion_baseline l))
       \<and> 0 \<le> fst (get_remainingTicks i w)
       \<and> (\<not> is_completed l \<and> isCompleted i (run_handler f w) \<longrightarrow>
            fst (get_remainingTicks i (run_handler f w)) = 0)"
proof -
  have eq: "fst (get_remainingTicks i w) =
           max 0 (max_ticks l - (tick_count (objs w i) - completion_baseline l))"
    by (rule remainingTicks_eq [OF assms])
  have "fst (get_remainingTicks i (run_handler f w)) = 0"
    if nc: "\<not> is_completed l" and c: "isCompleted i (run_handler f w)"
  proof -
    from c obtain l' where l': "limited_part (objs (run_handler f w) i) = Some l'"
      and cl': "is_completed l'"
      by (auto simp: isCompleted_def split: option.splits)
    have "\<forall>l. limited_part (objs w i) = Some l \<longrightarrow> is_completed l \<longrightarrow>
             max_ticks l \<le> tick_count (objs w i) - completion_baseline l"
      using assms nc by simp
    from run_handler_limit_reached [OF this, of f] l' cl'
    have "max_ticks l' \<le> tick_count (objs (run_handler f w) i) - completion_baseline l'"
      by simp
    then show ?thesis
      by (simp add: remainingTicks_eq [OF l'])
  qed
  with eq show ?thesis
    by simp
qed

theorem remainingTicks_value_witness:
  "fst (get_remainingTicks 0 (snd (new_LimitedInterval (Number 100) 1 False init_world))) = 1
   \<and> isCompleted 0 (run_handler (LimitedRun 0)
        (snd (new_LimitedInterval (Number 100) 1 False init_world)))
   \<and> fst (get_remainingTicks 0 (run_handler (LimitedRun 0)
        (snd (new_LimitedInterval (Number 100) 1 False init_world)))) = 0"
proof -
  let ?w = "snd (new_LimitedInterval (Number 100) 1 False init_world)"
  let ?l = "\<lparr>max_ticks = 1, is_completed = False, completion_baseline = 0\<rparr>"
  have h: "limited_part (objs ?w 0) = Some ?l"
    by (simp add: new_LimitedInterval_def new_Interval_def init_world_def upd_obj_def Let_def)
  have act: "is_active (objs ?w 0)" and tc: "tick_count (objs ?w 0) = 0"
    by (simp_all add: new_LimitedInterval_def new_Interval_def init_world_def upd_obj_def Let_def)
  have c: "isCompleted 0 (run_handler (LimitedRun 0) ?w)"
    using h act tc
    by (simp add: isCompleted_def Let_def increment_tick_def upd_obj_def pause_def)
  show ?thesis
    using remainingTicks_value [OF h, of "LimitedRun 0"] c h tc by simp
qed

section \<open>LimitedInterval: validation of the limit\<close>

text \<open>
  C8. Constructing a \<^verbatim>\<open>LimitedInterval\<close> with \<open>maxTicks \<le> 0\<close>, or writing \<open>maxTicks\<close> with a
  value \<open>\<le> 0\<close>, throws the error; a write with a value \<open>> 0\<close> returns, stores the new
  limit and sets \<^verbatim>\<open>isCompleted\<close> to false, and leaves the completion baseline unchanged.
\<close>

theorem maxTicks_validation:
  "(maxTicks \<le> 0 \<longrightarrow>
      fst (new_LimitedInterval duration maxTicks immediate w) =
        Threw (Error ''max_ticks must be greater than 0''))
   \<and> (new_max \<le> 0 \<longrightarrow>
      fst (set_maxTicks i new_max w) = Threw (Error ''max_ticks must be greater than 0''))
   \<and> (0 < new_max \<and> limited_part (objs w i) = Some l \<longrightarrow>
      fst (set_maxTicks i new_max w) = Returned ()
      \<and> get_maxTicks i (snd (set_maxTicks i new_max w)) = new_max
      \<and> isCompleted i (snd (set_maxTicks i new_max w)) = False
      \<and> get_completion_baseline i (snd (set_maxTicks i new_max w)) = completion_baseline l)"
  by (simp add: new_LimitedInterval_def set_maxTicks_def split_def Let_def upd_limited_def
      upd_obj_def get_maxTicks_def isCompleted_def get_completion_baseline_def)

theorem maxTicks_validation_witness:
  "fst (new_LimitedInterval (Number 1000) 0 False init_world) =
      Threw (Error ''max_ticks must be greater than 0'')
   \<and> fst (set_maxTicks 0 (- 1) (snd (new_LimitedInterval (Number 100) 2 False init_world))) =
      Threw (Error ''max_ticks must be greater than 0'')
   \<and> get_maxTicks 0
       (snd (set_maxTicks 0 5 (snd (new_LimitedInterval (Number 100) 2 False init_world)))) = 5"
proof -
  let ?w = "snd (new_LimitedInterval (Number 100) 2 False init_world)"
  let ?l = "\<lparr>max_ticks = 2, is_completed = False, completion_baseline = 0\<rparr>"
  have h: "limited_part (objs ?w 0) = Some ?l"
    by (simp add: new_LimitedInterval_def new_Interval_def init_world_def upd_obj_def Let_def)
  show ?thesis
    using maxTicks_validation
        [where maxTicks = 0 and duration = "Number 1000" and immediate = False
           and w = init_world]
      maxTicks_validation [where new_max = "- 1" and i = 0 and w = ?w]
      maxTicks_validation [where new_max = 5 and i = 0 and w = ?w and l = ?l] h
    by simp
qed

text \<open>
  C10. For every value \<open>v \<le> 0\<close>, the \<open>maxTicks\<close> write with \<open>v\<close> throws before any mutation:
  the world after the failed write is the world before it, so \<open>maxTicks\<close>, \<open>isCompleted\<close>,
  the completion baseline, \<open>tickCount\<close> and \<open>isActive\<close> are as they were.
\<close>

theorem failed_maxTicks_write_changes_nothing:
  "v \<le> 0 \<Longrightarrow>
     set_maxTicks i v w = (Threw (Error ''max_ticks must be greater than 0''), w)"
  by (simp add: set_maxTicks_def)

theorem failed_maxTicks_write_changes_nothing_witness:
  "set_maxTicks 0 0 (snd (new_LimitedInterval (Number 100) 2 False init_world)) =
     (Threw (Error ''max_ticks must be greater than 0''),
      snd (new_LimitedInterval (Number 100) 2 False init_world))"
  using failed_maxTicks_write_changes_nothing
    [of 0 0 "snd (new_LimitedInterval (Number 100) 2 False init_world)"]
  by simp

section \<open>stop\<close>

text \<open>
  C3. The claim: once \<^verbatim>\<open>stop()\<close> has been called, no later sequence of reads, duration
  writes and \<^verbatim>\<open>resume\<close> calls recreates a live handle or counts a further tick. In the
  code, for \<^verbatim>\<open>t = new Interval(100)\<close>: after \<^verbatim>\<open>t.current; t.stop()\<close> the timer reports
  stopped with no tick counted; \<^verbatim>\<open>t.resume(true)\<close> then counts a tick; the next
  \<^verbatim>\<open>t.tickCount\<close> read creates a live handle (the timer no longer reports stopped);
  and when that handle fires a second tick is counted.
\<close>

theorem stopped_interval_ticks_again:
  "isStopped 0 (run_ops [NewInterval (Number 100) False, ReadCurrent 0, Stop 0] init_world)
   \<and> tick_count (objs (run_ops [NewInterval (Number 100) False, ReadCurrent 0, Stop 0]
        init_world) 0) = 0
   \<and> tick_count (objs (run_ops [NewInterval (Number 100) False, ReadCurrent 0, Stop 0,
        Resume 0 True] init_world) 0) = 1
   \<and> live 0 (run_ops [NewInterval (Number 100) False, ReadCurrent 0, Stop 0,
        Resume 0 True, ReadTickCount 0] init_world)
   \<and> \<not> isStopped 0 (run_ops [NewInterval (Number 100) False, ReadCurrent 0, Stop 0,
        Resume 0 True, ReadTickCount 0] init_world)
   \<and> tick_count (objs (run_ops [NewInterval (Number 100) False, ReadCurrent 0, Stop 0,
        Resume 0 True, ReadTickCount 0, Fire 2] init_world) 0) = 2"
  by (simp add: scenario_defs)

section \<open>The completion invariant\<close>

lemmas inv_defs = completed_implies_inactive_def isCompleted_def isActive_def

lemma run_handler_completed_inactive:
  assumes "completed_implies_inactive i w"
  shows "completed_implies_inactive i (run_handler f w)"
  using assms
proof (rule run_handler_preserves [where P = "completed_implies_inactive i", rotated 2])
  fix j :: iid and w :: world
  assume "completed_implies_inactive i w"
  then show "completed_implies_inactive i (run_handler (BaseRun j) w)"
    by (auto simp: inv_defs increment_tick_def upd_obj_def split: option.splits)
next
  fix j :: iid and w :: world
  assume "completed_implies_inactive i w"
  then show "completed_implies_inactive i (run_handler (LimitedRun j) w)"
    by (auto simp: inv_defs increment_tick_def upd_obj_def pause_def Let_def
        split: option.splits)
qed

text \<open>No tick-handling function ends the state "completed and active" of a timer.\<close>

lemma run_handler_completed_active:
  assumes "isCompleted i w \<and> isActive i w"
  shows "isCompleted i (run_handler f w) \<and> isActive i (run_handler f w)"
  using assms
proof (rule run_handler_preserves
    [where P = "\<lambda>w. isCompleted i w \<and> isActive i w", rotated 2])
  fix j :: iid and w :: world
  assume "isCompleted i w \<and> isActive i w"
  then show "isCompleted i (run_handler (BaseRun j) w) \<and> isActive i (run_handler (BaseRun j) w)"
    by (auto simp: isCompleted_def isActive_def increment_tick_def upd_obj_def
        split: option.splits)
next
  fix j :: iid and w :: world
  assume "isCompleted i w \<and> isActive i w"
  then show "isCompleted i (run_handler (LimitedRun j) w)
      \<and> isActive i (run_handler (LimitedRun j) w)"
    by (auto simp: isCompleted_def isActive_def increment_tick_def upd_obj_def pause_def
        Let_def split: option.splits)
qed

lemma resume_completed_timer:
  assumes "isCompleted i w"
  shows "isCompleted i (resume i immediate w) \<and> isActive i (resume i immediate w)"
proof -
  let ?w1 = "upd_obj i (\<lambda>ob. ob\<lparr>is_active := True\<rparr>) w"
  let ?w2 = "upd_obj i (\<lambda>ob. ob\<lparr>version := version ob + 1\<rparr>) ?w1"
  have a: "isCompleted i ?w1 \<and> isActive i ?w1"
    using assms by (simp add: isCompleted_def isActive_def upd_obj_def)
  have b: "isCompleted i ?w2 \<and> isActive i ?w2"
    using assms by (simp add: isCompleted_def isActive_def upd_obj_def)
  show ?thesis
    using a run_handler_completed_active [OF b] by (simp add: resume_def Let_def)
qed

lemma completed_implies_inactive_cong:
  assumes "is_active (objs w' i) = is_active (objs w i)"
    and "limited_part (objs w' i) = limited_part (objs w i)"
  shows "completed_implies_inactive i w' = completed_implies_inactive i w"
  using assms by (simp add: inv_defs)

lemma enable_fold_fields:
  "is_active (objs (fold (\<lambda>interval w'.
                   if interval = ldr
                   then upd_obj interval (\<lambda>ob. ob\<lparr>run_func := f\<rparr>) w'
                   else upd_obj interval (\<lambda>ob. ob\<lparr>run_func := Noop\<rparr>) w') xs w) j)
     = is_active (objs w j)"
  "limited_part (objs (fold (\<lambda>interval w'.
                   if interval = ldr
                   then upd_obj interval (\<lambda>ob. ob\<lparr>run_func := f\<rparr>) w'
                   else upd_obj interval (\<lambda>ob. ob\<lparr>run_func := Noop\<rparr>) w') xs w) j)
     = limited_part (objs w j)"
  by (induction xs arbitrary: w) (simp_all add: upd_obj_def)

lemma enable_fields:
  "is_active (objs (snd (enable c w)) j) = is_active (objs w j)"
  "limited_part (objs (snd (enable c w)) j) = limited_part (objs w j)"
  by (simp_all add: enable_def Let_def get_current_def force_restart_def upd_obj_def
      kickoff_fields enable_fold_fields)

lemma disable_fold_fields:
  "is_active (objs (fold (\<lambda>interval w'.
                 force_restart interval
                   (case map_of origs interval of
                      None \<Rightarrow> w'
                    | Some original_func \<Rightarrow>
                        upd_obj interval (\<lambda>ob. ob\<lparr>run_func := original_func\<rparr>) w')) xs w) j)
     = is_active (objs w j)"
  "limited_part (objs (fold (\<lambda>interval w'.
                 force_restart interval
                   (case map_of origs interval of
                      None \<Rightarrow> w'
                    | Some original_func \<Rightarrow>
                        upd_obj interval (\<lambda>ob. ob\<lparr>run_func := original_func\<rparr>) w')) xs w) j)
     = limited_part (objs w j)"
  by (induction xs arbitrary: w)
    (simp_all add: upd_obj_def force_restart_def split: option.splits)

lemma disable_fields:
  "is_active (objs (snd (disable c w)) j) = is_active (objs w j)"
  "limited_part (objs (snd (disable c w)) j) = limited_part (objs w j)"
  by (simp_all add: disable_def disable_fold_fields)

lemma step_completed_inactive:
  assumes "completed_implies_inactive i w"
    and "\<And>immediate. x = Resume i immediate \<Longrightarrow> \<not> isCompleted i w"
  shows "completed_implies_inactive i (step x w)"
proof (cases x)
  case (NewInterval d immediate)
  then show ?thesis using assms(1)
    by (auto simp: inv_defs new_Interval_def Let_def kickoff_fields split: option.splits)
next
  case (NewLimitedInterval d maxTicks immediate)
  then show ?thesis using assms(1)
    by (auto simp: inv_defs new_LimitedInterval_def new_Interval_def Let_def kickoff_fields
        upd_obj_def split: option.splits)
next
  case (ReadCurrent j)
  then show ?thesis using assms(1)
    by (simp add: get_current_def kickoff_fields
        completed_implies_inactive_cong [of "kickoff_subscriptions j w" i w])
next
  case (ReadTickCount j)
  then show ?thesis using assms(1)
    by (simp add: get_tickCount_def Let_def kickoff_fields
        completed_implies_inactive_cong [of "kickoff_subscriptions j w" i w])
next
  case (ReadRemainingTicks j)
  then show ?thesis using assms(1)
    by (simp add: get_remainingTicks_def get_tickCount_def Let_def kickoff_fields
        completed_implies_inactive_cong [of "kickoff_subscriptions j w" i w])
next
  case (SetDuration j d)
  then show ?thesis using assms(1)
    by (auto simp: inv_defs set_duration_def upd_obj_def)
next
  case (Pause j)
  then show ?thesis using assms(1)
    by (auto simp: inv_defs pause_def upd_obj_def)
next
  case (Resume j immediate)
  have nc: "j = i \<Longrightarrow> \<not> isCompleted i w"
    using assms(2) Resume by simp
  have a: "completed_implies_inactive i (upd_obj j (\<lambda>ob. ob\<lparr>is_active := True\<rparr>) w)"
    using assms(1) nc by (auto simp: inv_defs upd_obj_def)
  have b: "completed_implies_inactive i
             (upd_obj j (\<lambda>ob. ob\<lparr>version := version ob + 1\<rparr>)
                (upd_obj j (\<lambda>ob. ob\<lparr>is_active := True\<rparr>) w))"
    using assms(1) nc by (auto simp: inv_defs upd_obj_def)
  show ?thesis using a run_handler_completed_inactive [OF b] Resume
    by (simp add: resume_def Let_def)
next
  case (Stop j)
  then show ?thesis using assms(1)
    by (auto simp: inv_defs stop_def upd_obj_def clearInterval_def)
next
  case (Dispose j)
  then show ?thesis using assms(1)
    by (auto simp: inv_defs dispose_def clearInterval_def)
next
  case (Reset j)
  then show ?thesis using assms(1)
    by (auto simp: inv_defs reset_def get_tickCount_def Let_def upd_limited_def upd_obj_def
        resume_def kickoff_fields split: option.splits)
next
  case (SetMaxTicks j v)
  then show ?thesis using assms(1)
    by (auto simp: inv_defs set_maxTicks_def upd_limited_def upd_obj_def split: option.splits)
next
  case (Fire h)
  then show ?thesis using assms(1) run_handler_completed_inactive
    by (auto simp: fire_def split: option.splits)
next
  case (SetReactive k v)
  then show ?thesis using assms(1)
    by (simp add: inv_defs)
next
  case (SyncEnable c)
  then show ?thesis using assms(1)
    by (simp add: completed_implies_inactive_cong [of "snd (enable c w)" i w] enable_fields)
next
  case (SyncDisable c)
  then show ?thesis using assms(1)
    by (simp add: completed_implies_inactive_cong [of "snd (disable c w)" i w] disable_fields)
qed

text \<open>The invariant of a timer, from any world in which it holds.\<close>

lemma run_ops_completed_inactive:
  "resume_guarded i ops w \<Longrightarrow> completed_implies_inactive i w \<Longrightarrow>
     completed_implies_inactive i (run_ops ops w)"
proof (induction ops arbitrary: w)
  case Nil
  then show ?case by (simp add: run_ops_def)
next
  case (Cons x ops)
  have g: "resume_guarded i ops (step x w)"
    and r: "\<And>immediate. x = Resume i immediate \<Longrightarrow> \<not> isCompleted i w"
    using Cons.prems(1) by (cases x; simp)+
  have "completed_implies_inactive i (step x w)"
    by (rule step_completed_inactive [OF Cons.prems(2) r])
  from Cons.IH [OF g this] show ?case
    by (simp add: run_ops_def)
qed

text \<open>
  C2, as stated, fails: for \<^verbatim>\<open>t = new LimitedInterval(100, 1)\<close>, after \<^verbatim>\<open>t.current\<close> and
  one firing of its timer the timer is completed and inactive, and \<^verbatim>\<open>t.resume()\<close> then
  sets \<^verbatim>\<open>isActive\<close> to true while \<^verbatim>\<open>isCompleted\<close> stays true.
\<close>

theorem resume_after_completion_counterexample:
  "isCompleted 0 (run_ops [NewLimitedInterval (Number 100) 1 False, ReadCurrent 0, Fire 1,
      Resume 0 False] init_world)
   \<and> isActive 0 (run_ops [NewLimitedInterval (Number 100) 1 False, ReadCurrent 0, Fire 1,
      Resume 0 False] init_world)"
  by (simp add: scenario_defs)

text \<open>
  C2, amended. For every timer \<open>i\<close> and every sequence of operations from the empty world
  (constructions, reads, duration writes, pause, resume, stop, dispose, reset, maxTicks
  writes, timer firings, changes of the reactive state, enabling and disabling a
  synchronizer, on this timer and on any other) in which \<^verbatim>\<open>resume\<close> is never called on
  \<open>i\<close> while \<open>i\<close> is completed: whenever \<^verbatim>\<open>isCompleted\<close> of \<open>i\<close> is true, \<^verbatim>\<open>isActive\<close> of \<open>i\<close> is
  false. And in every world, \<^verbatim>\<open>resume\<close> called on a completed timer, immediate or not,
  leaves it completed and makes it active.
\<close>

theorem completed_implies_inactive_unless_resumed:
  "(resume_guarded i ops init_world \<longrightarrow>
      (isCompleted i (run_ops ops init_world) \<longrightarrow> \<not> isActive i (run_ops ops init_world)))
   \<and> (isCompleted i w \<longrightarrow>
        isCompleted i (resume i immediate w) \<and> isActive i (resume i immediate w))"
proof -
  have init: "completed_implies_inactive i init_world"
    by (simp add: inv_defs init_world_def blank_interval_def)
  have "isCompleted i (run_ops ops init_world) \<longrightarrow> \<not> isActive i (run_ops ops init_world)"
    if "resume_guarded i ops init_world"
    using run_ops_completed_inactive [OF that init]
    by (simp add: completed_implies_inactive_def)
  then show ?thesis
    using resume_completed_timer [of i w immediate] by blast
qed

theorem completed_implies_inactive_unless_resumed_witness:
  "isCompleted 1 (run_ops [NewLimitedInterval (Number 100) 1 False,
      NewLimitedInterval (Number 200) 1 False, ReadCurrent 0, ReadCurrent 1, Fire 1,
      Resume 0 False, Pause 1, Resume 1 True, Reset 1, Fire 3] init_world)
   \<and> \<not> isActive 1 (run_ops [NewLimitedInterval (Number 100) 1 False,
      NewLimitedInterval (Number 200) 1 False, ReadCurrent 0, ReadCurrent 1, Fire 1,
      Resume 0 False, Pause 1, Resume 1 True, Reset 1, Fire 3] init_world)
   \<and> isCompleted 0 (resume 0 True (run_ops [NewLimitedInterval (Number 100) 1 False,
      ReadCurrent 0, Fire 1] init_world))
   \<and> isActive 0 (resume 0 True (run_ops [NewLimitedInterval (Number 100) 1 False,
      ReadCurrent 0, Fire 1] init_world))"
proof -
  let ?ops = "[NewLimitedInterval (Number 100) 1 False,
      NewLimitedInterval (Number 200) 1 False, ReadCurrent 0, ReadCurrent 1, Fire 1,
      Resume 0 False, Pause 1, Resume 1 True, Reset 1, Fire 3]"
  let ?w = "run_ops [NewLimitedInterval (Number 100) 1 False, ReadCurrent 0, Fire 1]
      init_world"
  have g: "resume_guarded 1 ?ops init_world"
    by (simp add: scenario_defs)
  have c: "isCompleted 1 (run_ops ?ops init_world)"
    by (simp add: scenario_defs reset_def upd_limited_def)
  have d: "isCompleted 0 ?w"
    by (simp add: scenario_defs)
  note t1 = completed_implies_inactive_unless_resumed
      [where i = 1 and ops = ?ops, THEN conjunct1, rule_format, OF g c]
  note t2 = completed_implies_inactive_unless_resumed
      [where i = 0 and w = ?w and immediate = True, THEN conjunct2, rule_format, OF d]
  from c t1 t2 show ?thesis
    by blast
qed

section \<open>sync: the leader\<close>

lemma sync_Returned:
  "sync members w = Returned c \<Longrightarrow>
     members \<noteq> [] \<and> intervals c = members \<and> leader c = find_leader members (hd members) w
     \<and> original_run_funcs c = capture_run_funcs members w \<and> \<not> sync_active c"
  by (auto simp: sync_def split: list.splits)

lemma sync_nonempty:
  "members \<noteq> [] \<Longrightarrow>
     sync members w =
       Returned \<lparr>intervals = members, leader = find_leader members (hd members) w,
                 original_run_funcs = capture_run_funcs members w, sync_active = False\<rparr>"
  by (cases members) (simp_all add: sync_def)

text \<open>
  The scan started from \<open>a\<close> either keeps \<open>a\<close>, and then no member is faster than \<open>a\<close>, or
  ends on the first of the fastest members, which is faster than \<open>a\<close>.
\<close>

lemma find_leader_first_min:
  "(find_leader ms a w = a \<and> (\<forall>x\<in>set ms. get_duration a w \<le> get_duration x w))
   \<or> (\<exists>k<length ms. find_leader ms a w = ms ! k
         \<and> get_duration (ms ! k) w < get_duration a w
         \<and> (\<forall>j<length ms. get_duration (ms ! k) w \<le> get_duration (ms ! j) w)
         \<and> (\<forall>j<k. get_duration (ms ! k) w < get_duration (ms ! j) w))"
proof (induction ms arbitrary: a)
  case Nil
  then show ?case by (simp add: find_leader_def)
next
  case (Cons x xs)
  let ?d = "\<lambda>i. get_duration i w"
  show ?case
  proof (cases "?d x < ?d a")
    case True
    then have fl: "find_leader (x # xs) a w = find_leader xs x w"
      by (simp add: find_leader_def)
    from Cons.IH [of x] show ?thesis
    proof
      assume h: "find_leader xs x w = x \<and> (\<forall>y\<in>set xs. ?d x \<le> ?d y)"
      have "0 < length (x # xs) \<and> find_leader (x # xs) a w = (x # xs) ! 0
         \<and> ?d ((x # xs) ! 0) < ?d a
         \<and> (\<forall>j<length (x # xs). ?d ((x # xs) ! 0) \<le> ?d ((x # xs) ! j))
         \<and> (\<forall>j<0. ?d ((x # xs) ! 0) < ?d ((x # xs) ! j))"
        using h True fl by (auto simp: nth_Cons split: nat.splits)
      then show ?thesis by blast
    next
      assume "\<exists>k<length xs. find_leader xs x w = xs ! k
         \<and> ?d (xs ! k) < ?d x
         \<and> (\<forall>j<length xs. ?d (xs ! k) \<le> ?d (xs ! j))
         \<and> (\<forall>j<k. ?d (xs ! k) < ?d (xs ! j))"
      then obtain k where k: "k < length xs" "find_leader xs x w = xs ! k"
         "?d (xs ! k) < ?d x" "\<forall>j<length xs. ?d (xs ! k) \<le> ?d (xs ! j)"
         "\<forall>j<k. ?d (xs ! k) < ?d (xs ! j)"
        by blast
      have "Suc k < length (x # xs) \<and> find_leader (x # xs) a w = (x # xs) ! Suc k
         \<and> ?d ((x # xs) ! Suc k) < ?d a
         \<and> (\<forall>j<length (x # xs). ?d ((x # xs) ! Suc k) \<le> ?d ((x # xs) ! j))
         \<and> (\<forall>j<Suc k. ?d ((x # xs) ! Suc k) < ?d ((x # xs) ! j))"
        using k True fl by (auto simp: nth_Cons split: nat.splits)
      then show ?thesis by blast
    qed
  next
    case False
    then have fl: "find_leader (x # xs) a w = find_leader xs a w"
      by (simp add: find_leader_def)
    from Cons.IH [of a] show ?thesis
    proof
      assume "find_leader xs a w = a \<and> (\<forall>y\<in>set xs. ?d a \<le> ?d y)"
      then show ?thesis using False fl by auto
    next
      assume "\<exists>k<length xs. find_leader xs a w = xs ! k
         \<and> ?d (xs ! k) < ?d a
         \<and> (\<forall>j<length xs. ?d (xs ! k) \<le> ?d (xs ! j))
         \<and> (\<forall>j<k. ?d (xs ! k) < ?d (xs ! j))"
      then obtain k where k: "k < length xs" "find_leader xs a w = xs ! k"
         "?d (xs ! k) < ?d a" "\<forall>j<length xs. ?d (xs ! k) \<le> ?d (xs ! j)"
         "\<forall>j<k. ?d (xs ! k) < ?d (xs ! j)"
        by blast
      have "Suc k < length (x # xs) \<and> find_leader (x # xs) a w = (x # xs) ! Suc k
         \<and> ?d ((x # xs) ! Suc k) < ?d a
         \<and> (\<forall>j<length (x # xs). ?d ((x # xs) ! Suc k) \<le> ?d ((x # xs) ! j))
         \<and> (\<forall>j<Suc k. ?d ((x # xs) ! Suc k) < ?d ((x # xs) ! j))"
        using k False fl by (auto simp: nth_Cons split: nat.splits)
      then show ?thesis by blast
    qed
  qed
qed

lemma find_leader_hd:
  assumes "ms \<noteq> []"
  shows "\<exists>k<length ms. find_leader ms (hd ms) w = ms ! k
         \<and> (\<forall>j<length ms. get_duration (ms ! k) w \<le> get_duration (ms ! j) w)
         \<and> (\<forall>j<k. get_duration (ms ! k) w < get_duration (ms ! j) w)"
proof -
  from find_leader_first_min [of ms "hd ms" w] show ?thesis
  proof
    assume h: "find_leader ms (hd ms) w = hd ms
       \<and> (\<forall>x\<in>set ms. get_duration (hd ms) w \<le> get_duration x w)"
    have "0 < length ms \<and> find_leader ms (hd ms) w = ms ! 0
         \<and> (\<forall>j<length ms. get_duration (ms ! 0) w \<le> get_duration (ms ! j) w)
         \<and> (\<forall>j<0. get_duration (ms ! 0) w < get_duration (ms ! j) w)"
      using h assms by (auto simp: hd_conv_nth)
    then show ?thesis by blast
  next
    assume "\<exists>k<length ms. find_leader ms (hd ms) w = ms ! k
         \<and> get_duration (ms ! k) w < get_duration (hd ms) w
         \<and> (\<forall>j<length ms. get_duration (ms ! k) w \<le> get_duration (ms ! j) w)
         \<and> (\<forall>j<k. get_duration (ms ! k) w < get_duration (ms ! j) w)"
    then show ?thesis by blast
  qed
qed

lemma leader_run_sync_calls: "leader (run_sync_calls calls c) = leader c"
proof (induction calls arbitrary: c)
  case Nil
  then show ?case by simp
next
  case (Cons x calls)
  obtain k w where x: "x = (k, w)" by (cases x)
  show ?case
    by (cases k) (simp_all add: x Cons.IH enable_def disable_def Let_def)
qed

text \<open>
  C5. For every non-empty member list, \<^verbatim>\<open>sync\<close> returns a controller whose leader is the
  member at the first position \<open>k\<close> of minimal resolved duration at the time of the call:
  no member is faster, and every earlier member is strictly slower (on ties the earliest
  wins). The \<^verbatim>\<open>leader\<close> read returns that member after any sequence of \<^verbatim>\<open>enable()\<close> and
  \<^verbatim>\<open>disable()\<close> calls, whatever the worlds they are called in.
\<close>

theorem sync_leader_is_first_minimum:
  assumes "members \<noteq> []"
  shows "\<exists>c k. sync members w = Returned c \<and> k < length members
           \<and> get_leader c = members ! k
           \<and> (\<forall>j<length members.
                 get_duration (members ! k) w \<le> get_duration (members ! j) w)
           \<and> (\<forall>j<k. get_duration (members ! k) w < get_duration (members ! j) w)
           \<and> (\<forall>calls. get_leader (run_sync_calls calls c) = members ! k)"
proof -
  let ?c = "\<lparr>intervals = members, leader = find_leader members (hd members) w,
             original_run_funcs = capture_run_funcs members w, sync_active = False\<rparr>"
  from find_leader_hd [OF assms, of w] obtain k where k: "k < length members"
    "find_leader members (hd members) w = members ! k"
    "\<forall>j<length members. get_duration (members ! k) w \<le> get_duration (members ! j) w"
    "\<forall>j<k. get_duration (members ! k) w < get_duration (members ! j) w"
    by blast
  have "sync members w = Returned ?c"
    by (rule sync_nonempty [OF assms])
  moreover have "get_leader ?c = members ! k"
    using k(2) by (simp add: get_leader_def)
  moreover have "\<forall>calls. get_leader (run_sync_calls calls ?c) = members ! k"
    using k(2) by (simp add: get_leader_def leader_run_sync_calls)
  ultimately show ?thesis
    using k(1,3,4) by blast
qed

theorem sync_leader_is_first_minimum_witness:
  "\<exists>c k. sync [0, 1, 2]
            (run_ops [NewInterval (Number 300) False, NewInterval (Number 100) False,
               NewInterval (Number 100) False] init_world) = Returned c
      \<and> k < length [0 :: iid, 1, 2] \<and> get_leader c = [0, 1, 2] ! k \<and> get_leader c = 1"
proof -
  let ?w = "run_ops [NewInterval (Number 300) False, NewInterval (Number 100) False,
               NewInterval (Number 100) False] init_world"
  have ne: "[0 :: iid, 1, 2] \<noteq> []"
    by simp
  from sync_leader_is_first_minimum [OF ne, of ?w]
  obtain c k where ck: "sync [0, 1, 2] ?w = Returned c" "k < length [0 :: iid, 1, 2]"
    "get_leader c = [0, 1, 2] ! k"
    by blast
  have "sync [0, 1, 2] ?w =
      Returned \<lparr>intervals = [0, 1, 2], leader = 1,
                original_run_funcs = [(0, BaseRun 0), (1, BaseRun 1), (2, BaseRun 2)],
                sync_active = False\<rparr>"
    by (simp add: scenario_defs sync_scenario_defs)
  with ck(1) have "get_leader c = 1"
    by (simp add: get_leader_def)
  with ck show ?thesis
    by blast
qed

section \<open>sync: saving and restoring the tick-handling functions\<close>

lemma map_of_fold_update:
  "map_of (fold (\<lambda>x m. AList.update x (g x) m) xs m0) i =
     (if i \<in> set xs then Some (g i) else map_of m0 i)"
  by (induction xs arbitrary: m0) (auto simp: update_conv')

lemma map_of_capture_run_funcs:
  "map_of (capture_run_funcs members w) i =
     (if i \<in> set members then Some (run_func (objs w i)) else None)"
  by (simp add: capture_run_funcs_def map_of_fold_update)

lemma disable_fold_run_func:
  assumes "\<forall>x\<in>set xs. map_of origs x = Some (g x)"
  shows "run_func (objs (fold (\<lambda>interval w'.
                 force_restart interval
                   (case map_of origs interval of
                      None \<Rightarrow> w'
                    | Some original_func \<Rightarrow>
                        upd_obj interval (\<lambda>ob. ob\<lparr>run_func := original_func\<rparr>) w'))
           xs w) i) = (if i \<in> set xs then g i else run_func (objs w i))"
  using assms
  by (induction xs arbitrary: w) (auto simp: force_restart_def upd_obj_def)

text \<open>
  C9. \<^verbatim>\<open>sync\<close> records for every member the tick-handling function the member has when
  \<^verbatim>\<open>sync\<close> is called (and changes no object); \<^verbatim>\<open>enable()\<close> followed by \<^verbatim>\<open>disable()\<close>, in any
  later world, leaves every member with exactly that recorded function; and
  \<^verbatim>\<open>disable()\<close> on a controller that is not enabled changes neither the controller nor
  the world.
\<close>

theorem enable_disable_restores_run_funcs:
  assumes "sync members w0 = Returned c"
  shows "(\<forall>i\<in>set members. map_of (original_run_funcs c) i = Some (run_func (objs w0 i)))
       \<and> (\<forall>i\<in>set members.
            run_func (objs (snd (disable (fst (enable c w)) (snd (enable c w)))) i)
              = run_func (objs w0 i))
       \<and> \<not> sync_active (fst (disable (fst (enable c w)) (snd (enable c w))))
       \<and> (\<not> sync_active c' \<longrightarrow> disable c' w' = (c', w'))"
proof -
  from sync_Returned [OF assms]
  have ms: "intervals c = members"
    and orig: "original_run_funcs c = capture_run_funcs members w0"
    and na: "\<not> sync_active c"
    by simp_all
  have cap: "\<forall>i\<in>set members. map_of (original_run_funcs c) i = Some (run_func (objs w0 i))"
    by (simp add: orig map_of_capture_run_funcs)
  have en: "fst (enable c w) = c\<lparr>sync_active := True\<rparr>"
    using na by (simp add: enable_def Let_def)
  have "\<forall>i\<in>set members.
            run_func (objs (snd (disable (fst (enable c w)) (snd (enable c w)))) i)
              = run_func (objs w0 i)"
    using cap
    by (simp add: en disable_def ms
        disable_fold_run_func [where g = "\<lambda>i. run_func (objs w0 i)"])
  moreover have "\<not> sync_active (fst (disable (fst (enable c w)) (snd (enable c w))))"
    by (simp add: en disable_def)
  moreover have "\<not> sync_active c' \<longrightarrow> disable c' w' = (c', w')"
    by (simp add: disable_def)
  ultimately show ?thesis
    using cap by simp
qed

theorem enable_disable_restores_run_funcs_witness:
  "run_func (objs (snd (disable
      (fst (enable \<lparr>intervals = [0, 1], leader = 1,
                     original_run_funcs = [(0, BaseRun 0), (1, LimitedRun 1)],
                     sync_active = False\<rparr>
             (run_ops [NewInterval (Number 300) False,
                       NewLimitedInterval (Number 100) 3 False] init_world)))
      (snd (enable \<lparr>intervals = [0, 1], leader = 1,
                     original_run_funcs = [(0, BaseRun 0), (1, LimitedRun 1)],
                     sync_active = False\<rparr>
             (run_ops [NewInterval (Number 300) False,
                       NewLimitedInterval (Number 100) 3 False] init_world))))) 1)
     = LimitedRun 1"
proof -
  let ?w = "run_ops [NewInterval (Number 300) False,
                     NewLimitedInterval (Number 100) 3 False] init_world"
  let ?c = "\<lparr>intervals = [0, 1], leader = 1,
             original_run_funcs = [(0, BaseRun 0), (1, LimitedRun 1)],
             sync_active = False\<rparr>"
  have s: "sync [0, 1] ?w = Returned ?c"
    by (simp add: scenario_defs sync_scenario_defs)
  have r: "run_func (objs ?w 1) = LimitedRun 1"
    by (simp add: scenario_defs)
  have m: "(1 :: iid) \<in> set [0, 1]"
    by simp
  note a = enable_disable_restores_run_funcs [OF s, of ?w, THEN conjunct2, THEN conjunct1]
  from bspec [OF a m] r show ?thesis
    by (rule trans)
qed

section \<open>sync: what the timers run\<close>

text \<open>
  What \<^verbatim>\<open>enable()\<close> does install: the leader gets the broadcasting function and every
  other member the empty one; the broadcast does nothing when the leader is inactive and
  otherwise calls the members' saved functions once per listing, in member order.
\<close>

lemma enable_fold_run_func:
  "run_func (objs (fold (\<lambda>interval w'.
                   if interval = ldr
                   then upd_obj interval (\<lambda>ob. ob\<lparr>run_func := f\<rparr>) w'
                   else upd_obj interval (\<lambda>ob. ob\<lparr>run_func := Noop\<rparr>) w') xs w) i)
     = (if i \<in> set xs then (if i = ldr then f else Noop) else run_func (objs w i))"
  by (induction xs arbitrary: w) (simp_all add: upd_obj_def)

lemma enable_installs_run_funcs:
  assumes "\<not> sync_active c" and "i \<in> set (intervals c)"
  shows "run_func (objs (snd (enable c w)) i) =
           (if i = leader c
            then LeaderRun (leader c) (intervals c) (original_run_funcs c) else Noop)"
  using assms
  by (auto simp: enable_def Let_def get_current_def force_restart_def upd_obj_def
      kickoff_fields enable_fold_run_func)

lemma leader_broadcast:
  "run_handler (LeaderRun ldr members (capture_run_funcs members w0)) w =
     (if \<not> is_active (objs w ldr) then w
      else fold (\<lambda>interval. run_handler (run_func (objs w0 interval))) members w)"
  by (auto simp: map_of_capture_run_funcs intro!: fold_cong)

text \<open>
  C4. The claim: while a controller is enabled, every firing of the leader's timer runs
  the replaced leader function, and the followers' timers, if live, count no tick. In
  the code a live handle keeps the function bound when it was created, and \<^verbatim>\<open>enable()\<close>
  restarts no follower. For \<^verbatim>\<open>a = new Interval(100)\<close>, \<^verbatim>\<open>b = new Interval(300)\<close>,
  \<^verbatim>\<open>b.current\<close>, \<^verbatim>\<open>c = sync(a, b)\<close>, \<^verbatim>\<open>c.enable()\<close>: the leader is \<open>a\<close>, the controller is
  enabled, the follower \<open>b\<close> has the empty function and a live handle, and when that
  handle fires \<open>b\<close> counts a tick. With \<^verbatim>\<open>a.current\<close> in place of \<^verbatim>\<open>b.current\<close>, the
  leader's handle is live after \<^verbatim>\<open>enable()\<close> and its firing counts a tick for \<open>a\<close> and
  none for \<open>b\<close>: it still runs the leader's own original function.
\<close>

theorem follower_timer_still_counts:
  "(case sync [0, 1]
           (run_ops [NewInterval (Number 100) False, NewInterval (Number 300) False,
              ReadCurrent 1] init_world) of
      Threw e \<Rightarrow> False
    | Returned c \<Rightarrow>
        get_leader c = 0
        \<and> sync_active (fst (enable c
             (run_ops [NewInterval (Number 100) False, NewInterval (Number 300) False,
                ReadCurrent 1] init_world)))
        \<and> run_func (objs (run_ops [NewInterval (Number 100) False,
             NewInterval (Number 300) False, ReadCurrent 1, SyncEnable c] init_world) 1) = Noop
        \<and> live 1 (run_ops [NewInterval (Number 100) False,
             NewInterval (Number 300) False, ReadCurrent 1, SyncEnable c] init_world)
        \<and> interval_id (objs (run_ops [NewInterval (Number 100) False,
             NewInterval (Number 300) False, ReadCurrent 1, SyncEnable c] init_world) 1) = 1
        \<and> tick_count (objs (run_ops [NewInterval (Number 100) False,
             NewInterval (Number 300) False, ReadCurrent 1, SyncEnable c] init_world) 1) = 0
        \<and> tick_count (objs (run_ops [NewInterval (Number 100) False,
             NewInterval (Number 300) False, ReadCurrent 1, SyncEnable c, Fire 1]
             init_world) 1) = 1)
   \<and> (case sync [0, 1]
           (run_ops [NewInterval (Number 100) False, NewInterval (Number 300) False,
              ReadCurrent 0] init_world) of
      Threw e \<Rightarrow> False
    | Returned c \<Rightarrow>
        get_leader c = 0
        \<and> live 0 (run_ops [NewInterval (Number 100) False,
             NewInterval (Number 300) False, ReadCurrent 0, SyncEnable c] init_world)
        \<and> interval_id (objs (run_ops [NewInterval (Number 100) False,
             NewInterval (Number 300) False, ReadCurrent 0, SyncEnable c] init_world) 0) = 1
        \<and> is_active (objs (run_ops [NewInterval (Number 100) False,
             NewInterval (Number 300) False, ReadCurrent 0, SyncEnable c] init_world) 1)
        \<and> tick_count (objs (run_ops [NewInterval (Number 100) False,
             NewInterval (Number 300) False, ReadCurrent 0, SyncEnable c, Fire 1]
             init_world) 0) = 1
        \<and> tick_count (objs (run_ops [NewInterval (Number 100) False,
             NewInterval (Number 300) False, ReadCurrent 0, SyncEnable c, Fire 1]
             init_world) 1) = 0)"
  by (simp add: scenario_defs sync_scenario_defs)


end
